theory Spec2Isabelle
  imports Complex_Main
begin

section \<open>Numbers and strings of the watcher\<close>

text \<open>
  The health factor and the threshold are JavaScript numbers. The values that reach the
  comparisons of \<open>checkUserHealth\<close> are finite decimals, or \<open>Infinity\<close> (the value
  \<open>parseHealthFactor\<close> returns when formatting throws, and the default of the cache
  lookup). \<open>NaN\<close> is never produced by \<open>parseFloat\<close> on the output of \<open>formatUnits\<close>.
\<close>

datatype number = Fin real | PosInf

text \<open>The JavaScript comparison \<open>a <= b\<close> on these values.\<close>

fun num_le :: "number \<Rightarrow> number \<Rightarrow> bool" where
  "num_le (Fin a) (Fin b) = (a \<le> b)"
| "num_le (Fin a) PosInf = True"
| "num_le PosInf (Fin b) = False"
| "num_le PosInf PosInf = True"

text \<open>
  \<open>String.prototype.toLowerCase\<close> on the ASCII letters; account addresses are
  hexadecimal ASCII strings.
\<close>

definition lower_char :: "char \<Rightarrow> char" where
  "lower_char c =
     (let n = (of_char c :: nat) in if 65 \<le> n \<and> n \<le> 90 then char_of (n + 32) else c)"

definition toLowerCase :: "string \<Rightarrow> string" where
  "toLowerCase s = map lower_char s"

text \<open>\<open>String.prototype.startsWith\<close>.\<close>

definition startsWith :: "string \<Rightarrow> string \<Rightarrow> bool" where
  "startsWith s p = (take (length p) s = p)"

section \<open>Account health scheduler (watcher.ts)\<close>

text \<open>
  The configuration constants read once at start-up. Times are whole seconds
  (\<open>nowSeconds\<close>), the counter and the cap are integers. An environment value that
  \<open>parseInt\<close> or \<open>parseFloat\<close> cannot read (\<open>NaN\<close>) is not a configuration of this
  model. \<open>allUsers\<close> is the list of known accounts that \<open>fullScan\<close> walks; the
  module declares it empty.
\<close>

record config =
  HF_THRESHOLD :: number
  USER_DEBOUNCE_SECONDS :: int
  MAX_CONCURRENT_CHECKS :: int
  TEST_MODE :: bool
  allUsers :: "string list"

text \<open>
  The module-level variables \<open>activeChecks\<close>, \<open>activeUsers\<close>, \<open>lastCheck\<close> and
  \<open>userHealthCache\<close>, together with the suspended calls of \<open>checkUserHealth\<close> that the
  event loop holds: \<open>awaiting_query\<close> lists the calls suspended at
  \<open>await poolContract.getUserAccountData(user)\<close>, \<open>awaiting_handler\<close> those suspended at
  \<open>await handleLiquidation(user, hf)\<close>. Each entry is the \<open>user\<close> argument of the call.
\<close>

record scheduler =
  activeChecks :: int
  activeUsers :: "string set"
  lastCheck :: "string \<rightharpoonup> int"
  userHealthCache :: "string \<rightharpoonup> number"
  awaiting_query :: "string list"
  awaiting_handler :: "string list"

definition initial :: scheduler where
  "initial = \<lparr> activeChecks = 0, activeUsers = {}, lastCheck = Map.empty,
     userHealthCache = Map.empty, awaiting_query = [], awaiting_handler = [] \<rparr>"

text \<open>
  \<open>shouldSkipUser\<close>: \<open>if (!last) return false\<close> is taken both for a missing entry and for
  the number \<open>0\<close>, which is falsy.
\<close>

definition shouldSkipUser :: "config \<Rightarrow> int \<Rightarrow> string \<Rightarrow> scheduler \<Rightarrow> bool" where
  "shouldSkipUser cfg now user s =
     (case lastCheck s user of
        None \<Rightarrow> False
      | Some last_seen \<Rightarrow> if last_seen = 0 then False else now - last_seen < USER_DEBOUNCE_SECONDS cfg)"

text \<open>
  What the health metric source hands back: the promise of \<open>getUserAccountData\<close> rejects,
  or it resolves with a \<open>healthFactor\<close> field. The field is given as the decimal that
  \<open>parseFloat (formatUnits (hf, 18))\<close> evaluates to, or \<open>None\<close> when \<open>formatUnits\<close> throws.
\<close>

datatype query_result = Rejected | Resolved "real option"

definition parseHealthFactor :: "real option \<Rightarrow> number" where
  "parseHealthFactor hf = (case hf of Some r \<Rightarrow> Fin r | None \<Rightarrow> PosInf)"

text \<open>
  Observable actions of the scheduler. \<open>SendAlert user hf threshold\<close> is the call
  \<open>sendAlert(msg)\<close> with the test-mode message rendered from these three values;
  \<open>LogAlert\<close> is the \<open>console.log\<close> of the same message; \<open>LogFlashloan\<close> is the
  log line of the non-test branch; \<open>LogError\<close> is the \<open>console.error\<close> of the catch
  block; \<open>LogPending\<close> and \<open>WarnDecode\<close> belong to the pending-transaction handler.
\<close>

datatype effect =
    SendAlert string number number
  | LogAlert string number number
  | LogFlashloan string number
  | LogError
  | LogPending string
  | WarnDecode

definition handleLiquidation :: "config \<Rightarrow> string \<Rightarrow> number \<Rightarrow> effect list" where
  "handleLiquidation cfg user hf =
     (if TEST_MODE cfg
      then [LogAlert user hf (HF_THRESHOLD cfg), SendAlert user hf (HF_THRESHOLD cfg)]
      else [LogFlashloan user hf])"

text \<open>
  \<open>checkUserHealth\<close> up to its first \<open>await\<close>: the three admission tests, then the
  counter, the set and the time stamp, then the query is issued and the call suspends.
  The two readings of the clock in this synchronous stretch are the same second \<open>now\<close>.
\<close>

definition checkUserHealth :: "config \<Rightarrow> int \<Rightarrow> string \<Rightarrow> scheduler \<Rightarrow> scheduler" where
  "checkUserHealth cfg now user s =
     (if user \<in> activeUsers s then s
      else if shouldSkipUser cfg now user s then s
      else if activeChecks s \<ge> MAX_CONCURRENT_CHECKS cfg then s
      else s\<lparr> activeChecks := activeChecks s + 1,
              activeUsers := insert user (activeUsers s),
              lastCheck := (lastCheck s)(user \<mapsto> now),
              awaiting_query := awaiting_query s @ [user] \<rparr>)"

text \<open>The \<open>finally\<close> block.\<close>

definition finally_block :: "string \<Rightarrow> scheduler \<Rightarrow> scheduler" where
  "finally_block user s =
     s\<lparr> activeChecks := activeChecks s - 1, activeUsers := activeUsers s - {user} \<rparr>"

text \<open>
  The call resumes when the query settles: the body of the \<open>try\<close> after the first
  \<open>await\<close>, the \<open>catch\<close> block, and the \<open>finally\<close> block unless the call suspends
  again at \<open>await handleLiquidation\<close>.
\<close>

definition querySettled ::
  "config \<Rightarrow> string \<Rightarrow> query_result \<Rightarrow> scheduler \<Rightarrow> effect list \<times> scheduler" where
  "querySettled cfg user res s =
     (let s0 = s\<lparr> awaiting_query := remove1 user (awaiting_query s) \<rparr> in
      case res of
        Rejected \<Rightarrow> ([LogError], finally_block user s0)
      | Resolved raw \<Rightarrow>
          (let hf = parseHealthFactor raw;
               lastHf = (case userHealthCache s0 user of None \<Rightarrow> PosInf | Some v \<Rightarrow> v)
           in if hf = lastHf then ([], finally_block user s0)
              else
                (let s1 = s0\<lparr> userHealthCache := (userHealthCache s0)(user \<mapsto> hf) \<rparr>
                 in if num_le hf (HF_THRESHOLD cfg)
                    then (handleLiquidation cfg user hf,
                          s1\<lparr> awaiting_handler := awaiting_handler s1 @ [user] \<rparr>)
                    else ([], finally_block user s1))))"

text \<open>The call resumes after \<open>await handleLiquidation\<close> and runs the \<open>finally\<close> block.\<close>

definition handlerSettled :: "string \<Rightarrow> scheduler \<Rightarrow> scheduler" where
  "handlerSettled user s =
     finally_block user (s\<lparr> awaiting_handler := remove1 user (awaiting_handler s) \<rparr>)"

text \<open>The three notification paths.\<close>

definition onUserEvent :: "config \<Rightarrow> int \<Rightarrow> string \<Rightarrow> scheduler \<Rightarrow> scheduler" where
  "onUserEvent cfg now user s = checkUserHealth cfg now (toLowerCase user) s"

text \<open>
  The selector of \<open>liquidationCall (address, address, address, uint256, bool)\<close>, the
  one function of the interface \<open>iface\<close>: the first four bytes of the Keccak-256 hash
  of that signature, as a lower-case hexadecimal string.
\<close>

definition liquidationCall_selector :: string where
  "liquidationCall_selector = ''0x00a718a9''"

text \<open>
  \<open>iface.decodeFunctionData ("liquidationCall", input)\<close>, third component: the call
  throws unless the first four bytes of the data are the selector of the function.
  Behind a matching selector, \<open>args\<close> is what the decoding of the arguments gives as
  the third one, \<open>None\<close> when that throws.
\<close>

definition decodeFunctionData :: "string \<Rightarrow> string option \<Rightarrow> string option" where
  "decodeFunctionData input args =
     (if toLowerCase (take 10 input) = liquidationCall_selector then args else None)"

text \<open>
  The pending-transaction callback: \<open>input\<close> is \<open>tx.input\<close>, and \<open>args\<close> is the account
  that the argument data of the transaction encodes, if any.
\<close>

definition onPendingTx ::
  "config \<Rightarrow> int \<Rightarrow> string \<Rightarrow> string option \<Rightarrow> scheduler \<Rightarrow> effect list \<times> scheduler" where
  "onPendingTx cfg now input args s =
     (if startsWith input ''0x00aa2d''
      then (case decodeFunctionData input args of
              None \<Rightarrow> ([WarnDecode], s)
            | Some user \<Rightarrow> ([LogPending user], checkUserHealth cfg now user s))
      else ([], s))"

text \<open>One iteration of the loop of \<open>fullScan\<close>, up to the suspension of the call.\<close>

definition fullScanVisit :: "config \<Rightarrow> int \<Rightarrow> string \<Rightarrow> scheduler \<Rightarrow> scheduler" where
  "fullScanVisit cfg now user s = checkUserHealth cfg now user s"

text \<open>
  The events that the event loop delivers to the scheduler, each with the reading of
  the clock at that moment. A settling event is enabled only for a suspended call.
\<close>

datatype event =
    UserEvent string
  | PendingTx string "string option"
  | ScanVisit string
  | QuerySettled string query_result
  | HandlerSettled string

definition fire ::
  "config \<Rightarrow> int \<times> event \<Rightarrow> scheduler \<Rightarrow> (effect list \<times> scheduler) option" where
  "fire cfg te s =
     (case snd te of
        UserEvent user \<Rightarrow> Some ([], onUserEvent cfg (fst te) user s)
      | PendingTx input decoded \<Rightarrow> Some (onPendingTx cfg (fst te) input decoded s)
      | ScanVisit user \<Rightarrow>
          if user \<in> set (allUsers cfg) then Some ([], fullScanVisit cfg (fst te) user s)
          else None
      | QuerySettled user res \<Rightarrow>
          if user \<in> set (awaiting_query s) then Some (querySettled cfg user res s) else None
      | HandlerSettled user \<Rightarrow>
          if user \<in> set (awaiting_handler s) then Some ([], handlerSettled user s)
          else None)"

fun run ::
  "config \<Rightarrow> (int \<times> event) list \<Rightarrow> scheduler \<Rightarrow> (effect list \<times> scheduler) option" where
  "run cfg [] s = Some ([], s)"
| "run cfg (te # tes) s =
     (case fire cfg te s of
        None \<Rightarrow> None
      | Some (out, s') \<Rightarrow>
          (case run cfg tes s' of
             None \<Rightarrow> None
           | Some (out', s'') \<Rightarrow> Some (out @ out', s'')))"

text \<open>The calls of \<open>sendAlert\<close> among the actions of a step.\<close>

definition alerts :: "effect list \<Rightarrow> effect list" where
  "alerts out = filter (\<lambda>e. case e of SendAlert u h t \<Rightarrow> True | _ \<Rightarrow> False) out"

text \<open>The calls of \<open>checkUserHealth\<close> that are suspended, at either \<open>await\<close>.\<close>

definition suspended :: "scheduler \<Rightarrow> string list" where
  "suspended s = awaiting_query s @ awaiting_handler s"

text \<open>
  The bookkeeping of the scheduler agrees with the suspended calls: no address has
  two of them, the set \<open>activeUsers\<close> holds exactly their addresses, and the counter
  \<open>activeChecks\<close> is their number.
\<close>

definition consistent :: "scheduler \<Rightarrow> bool" where
  "consistent s =
     (distinct (suspended s) \<and> activeUsers s = set (suspended s)
      \<and> activeChecks s = int (length (suspended s)))"

text \<open>The metric recorded for an address: \<open>userHealthCache.get (user) ?? Infinity\<close>.\<close>

definition previous_metric :: "scheduler \<Rightarrow> string \<Rightarrow> number" where
  "previous_metric s user = (case userHealthCache s user of None \<Rightarrow> PosInf | Some v \<Rightarrow> v)"

text \<open>The address has a recorded check at time \<open>t\<close> or later.\<close>

definition checked_since :: "int \<Rightarrow> string \<Rightarrow> scheduler \<Rightarrow> bool" where
  "checked_since t user s = (\<exists>l. lastCheck s user = Some l \<and> t \<le> l)"


text \<open>The events that are notifications, as opposed to the settling of a suspended call.\<close>

fun is_notification :: "event \<Rightarrow> bool" where
  "is_notification (UserEvent user) = True"
| "is_notification (PendingTx input decoded) = True"
| "is_notification (ScanVisit user) = True"
| "is_notification (QuerySettled user res) = False"
| "is_notification (HandlerSettled user) = False"

text \<open>
  The default configuration of the module (threshold 1.05, window 30 s, cap 4, test
  mode off, no known accounts), and variants of it used in the examples below.
\<close>

definition default_config :: config where
  "default_config =
     \<lparr> HF_THRESHOLD = Fin (105 / 100), USER_DEBOUNCE_SECONDS = 30,
       MAX_CONCURRENT_CHECKS = 4, TEST_MODE = False, allUsers = [] \<rparr>"

definition test_mode_config :: config where
  "test_mode_config = default_config\<lparr> TEST_MODE := True \<rparr>"

definition single_slot_config :: config where
  "single_slot_config = default_config\<lparr> MAX_CONCURRENT_CHECKS := 1 \<rparr>"

section \<open>Connection pool (watcher.ts)\<close>

text \<open>
  A provider is identified by its position in the array \<open>providers\<close>, which holds one
  \<open>WebSocketProvider\<close> object per configured URL; the handlers compare the objects by
  identity. The listeners registered at start-up are recorded per endpoint: the
  providers of the pool, and the separate Alchemy client that carries the two
  transaction streams.
\<close>

datatype endpoint = Provider nat | AlchemyWs

datatype topic =
    Borrow | Repay | Deposit | Withdraw | LiquidationCall
  | PENDING_TRANSACTIONS | MINED_TRANSACTIONS

record pool =
  activeProvider :: "nat option"
  subscriptions :: "(endpoint \<times> topic) list"

text \<open>
  The module code from the provider loop to the Alchemy streams, for \<open>n\<close> configured
  URLs. No socket event is delivered while it runs, so \<open>activeProvider\<close> is still
  \<open>null\<close> after the loop and is set to \<open>providers[0]\<close> when there is one; then every
  provider gets the five contract listeners, and the Alchemy client the two streams.
\<close>

definition provider_topics :: "topic list" where
  "provider_topics = [Borrow, Repay, Deposit, Withdraw, LiquidationCall]"

definition startup :: "nat \<Rightarrow> pool" where
  "startup n =
     \<lparr> activeProvider = (if 0 < n then Some 0 else None),
       subscriptions =
         concat (map (\<lambda>i. map (\<lambda>t. (Provider i, t)) provider_topics) [0..<n])
         @ [(AlchemyWs, PENDING_TRANSACTIONS), (AlchemyWs, MINED_TRANSACTIONS)] \<rparr>"

text \<open>The socket handlers of provider \<open>i\<close>.\<close>

definition on_open :: "nat \<Rightarrow> pool \<Rightarrow> pool" where
  "on_open i s = (if activeProvider s = None then s\<lparr> activeProvider := Some i \<rparr> else s)"

definition on_close :: "nat \<Rightarrow> nat \<Rightarrow> pool \<Rightarrow> pool" where
  "on_close n i s =
     (case find (\<lambda>p. p \<noteq> i) [0..<n] of
        Some fallback \<Rightarrow> s\<lparr> activeProvider := Some fallback \<rparr>
      | None \<Rightarrow> s\<lparr> activeProvider := None \<rparr>)"

definition on_error :: "nat \<Rightarrow> pool \<Rightarrow> pool" where
  "on_error i s = s"

datatype socket_event = Open nat | Close nat | Error nat

text \<open>A socket event is delivered only for a provider of the pool.\<close>

definition deliver :: "nat \<Rightarrow> socket_event \<Rightarrow> pool \<Rightarrow> pool option" where
  "deliver n ev s =
     (case ev of
        Open i \<Rightarrow> if i < n then Some (on_open i s) else None
      | Close i \<Rightarrow> if i < n then Some (on_close n i s) else None
      | Error i \<Rightarrow> if i < n then Some (on_error i s) else None)"

fun deliver_all :: "nat \<Rightarrow> socket_event list \<Rightarrow> pool \<Rightarrow> pool option" where
  "deliver_all n [] s = Some s"
| "deliver_all n (ev # evs) s =
     (case deliver n ev s of None \<Rightarrow> None | Some s' \<Rightarrow> deliver_all n evs s')"

text \<open>
  The code keeps no lifecycle state of a connection. The state the specification
  speaks of is read off the history of socket events: a connection is Connecting
  until its first event, then in the state of its latest event (an \<open>open\<close>, \<open>close\<close>
  or \<open>error\<close> event of its socket).
\<close>

datatype lifecycle = Connecting | IsOpen | Closed | Errored

fun track :: "socket_event \<Rightarrow> (nat \<Rightarrow> lifecycle) \<Rightarrow> (nat \<Rightarrow> lifecycle)" where
  "track (Open i) st = st(i := IsOpen)"
| "track (Close i) st = st(i := Closed)"
| "track (Error i) st = st(i := Errored)"

definition spec_lifecycle :: "socket_event list \<Rightarrow> nat \<Rightarrow> lifecycle" where
  "spec_lifecycle evs = fold track evs (\<lambda>i. Connecting)"

text \<open>
  The relation between the active reference and the lifecycle states that the pool
  keeps: a reference names a configured connection, and the reference is empty only
  in a pool of at most one connection, none of them Open.
\<close>

definition routed :: "nat \<Rightarrow> pool \<Rightarrow> (nat \<Rightarrow> lifecycle) \<Rightarrow> bool" where
  "routed n s st =
     ((\<forall>i. activeProvider s = Some i \<longrightarrow> i < n)
      \<and> (activeProvider s = None \<longrightarrow> n \<le> 1 \<and> (\<forall>i<n. st i \<noteq> IsOpen)))"

section \<open>Alert dispatcher (utils/alert.ts)\<close>

text \<open>
  The module variables \<open>bot\<close> (true when the Telegram bot object exists),
  \<open>ALERT_QUEUE\<close> (the message of each item) and \<open>sending\<close>, together with what the event
  loop holds for the module: the number of \<open>sendMessage\<close> promises not yet settled and
  the due times, in milliseconds, of the pending \<open>setTimeout (processQueue, ...)\<close> timers.
\<close>

record dispatcher =
  bot :: bool
  ALERT_QUEUE :: "string list"
  sending :: bool
  unsettled :: nat
  timers :: "nat list"

definition TELEGRAM_INTERVAL_MS :: nat where
  "TELEGRAM_INTERVAL_MS = 1000"

definition dispatcher_init :: "bool \<Rightarrow> dispatcher" where
  "dispatcher_init configured =
     \<lparr> bot = configured, ALERT_QUEUE = [], sending = False, unsettled = 0, timers = [] \<rparr>"

text \<open>
  Observable actions of the dispatcher: the call \<open>bot.sendMessage (chatId, message)\<close>,
  the \<open>console.log\<close> of the fallback with its two arguments, and the \<open>console.error\<close>
  of a failed delivery.
\<close>

datatype action = SendMessage string | ConsoleLog string string | ConsoleError

definition processQueue :: "dispatcher \<Rightarrow> action list \<times> dispatcher" where
  "processQueue s =
     (if \<not> bot s \<or> sending s \<or> ALERT_QUEUE s = [] then ([], s)
      else ([SendMessage (hd (ALERT_QUEUE s))],
            s\<lparr> sending := True, ALERT_QUEUE := tl (ALERT_QUEUE s),
               unsettled := unsettled s + 1 \<rparr>))"

text \<open>
  The \<open>catch\<close> and \<open>finally\<close> callbacks of a delivery that settles at time \<open>now\<close>;
  \<open>ok\<close> tells whether the promise of \<open>sendMessage\<close> resolved.
\<close>

definition settled :: "bool \<Rightarrow> nat \<Rightarrow> dispatcher \<Rightarrow> action list \<times> dispatcher" where
  "settled ok now s =
     ((if ok then [] else [ConsoleError]),
      s\<lparr> sending := False, unsettled := unsettled s - 1,
         timers := (if ALERT_QUEUE s \<noteq> [] then timers s @ [now + TELEGRAM_INTERVAL_MS]
                    else timers s) \<rparr>)"

text \<open>\<open>sendAlert\<close>; \<open>time\<close> is the string \<open>new Date().toISOString()\<close>.\<close>

definition payload :: "string \<Rightarrow> string \<Rightarrow> string" where
  "payload time message = ''['' @ time @ ''] '' @ message"

definition sendAlert :: "string \<Rightarrow> string \<Rightarrow> dispatcher \<Rightarrow> action list \<times> dispatcher" where
  "sendAlert time message s =
     (if \<not> bot s then ([ConsoleLog ''ALERT:'' (payload time message)], s)
      else processQueue (s\<lparr> ALERT_QUEUE := ALERT_QUEUE s @ [payload time message] \<rparr>))"

text \<open>
  The events of the dispatcher, each at a time in milliseconds: a call of \<open>sendAlert\<close>,
  the settling of the delivery in flight, and the firing of the oldest timer, which
  is enabled once its due time has come.
\<close>

datatype dispatch_event = Alert string string | Settled bool | Timeout

definition dispatch ::
  "nat \<times> dispatch_event \<Rightarrow> dispatcher \<Rightarrow> ((nat \<times> action) list \<times> dispatcher) option" where
  "dispatch te s =
     (let stamp = (\<lambda>r. (map (\<lambda>a. (fst te, a)) (fst r), snd r)) in
      case snd te of
        Alert time message \<Rightarrow> Some (stamp (sendAlert time message s))
      | Settled ok \<Rightarrow>
          if unsettled s = 0 then None else Some (stamp (settled ok (fst te) s))
      | Timeout \<Rightarrow>
          (case timers s of
             [] \<Rightarrow> None
           | due # rest \<Rightarrow>
               if due \<le> fst te then Some (stamp (processQueue (s\<lparr> timers := rest \<rparr>)))
               else None))"

fun dispatch_all ::
  "(nat \<times> dispatch_event) list \<Rightarrow> dispatcher
     \<Rightarrow> ((nat \<times> action) list \<times> dispatcher) option" where
  "dispatch_all [] s = Some ([], s)"
| "dispatch_all (te # tes) s =
     (case dispatch te s of
        None \<Rightarrow> None
      | Some (out, s') \<Rightarrow>
          (case dispatch_all tes s' of
             None \<Rightarrow> None
           | Some (out', s'') \<Rightarrow> Some (out @ out', s'')))"

text \<open>The messages handed to \<open>sendMessage\<close> in a trace, and those passed to \<open>sendAlert\<close>.\<close>

fun attempted :: "(nat \<times> action) list \<Rightarrow> string list" where
  "attempted [] = []"
| "attempted ((t, SendMessage m) # tr) = m # attempted tr"
| "attempted ((t, a) # tr) = attempted tr"

fun enqueued :: "(nat \<times> dispatch_event) list \<Rightarrow> string list" where
  "enqueued [] = []"
| "enqueued ((t, Alert time message) # tes) = payload time message # enqueued tes"
| "enqueued ((t, e) # tes) = enqueued tes"

section \<open>Properties of the scheduler\<close>

lemma int_length_remove1:
  "x \<in> set xs \<Longrightarrow> int (length (remove1 x xs)) = int (length xs) - 1"
proof -
  assume mem: "x \<in> set xs"
  then have "0 < length xs" by (rule length_pos_if_in_set)
  then have "int (length xs - 1) = int (length xs) - 1" by arith
  with mem show ?thesis by (simp add: length_remove1)
qed

lemma consistent_initial: "consistent initial"
  by (simp add: consistent_def suspended_def initial_def)

lemma consistent_checkUserHealth:
  "consistent s \<Longrightarrow> consistent (checkUserHealth cfg now user s)"
  by (auto simp: consistent_def suspended_def checkUserHealth_def)

lemma consistent_finally_query:
  assumes "consistent s" "user \<in> set (awaiting_query s)"
  shows "consistent
    (finally_block user (s\<lparr> awaiting_query := remove1 user (awaiting_query s) \<rparr>))"
  using assms
  by (auto simp: consistent_def suspended_def finally_block_def int_length_remove1)

lemma consistent_querySettled:
  assumes "consistent s" "user \<in> set (awaiting_query s)"
  shows "consistent (snd (querySettled cfg user res s))"
proof (cases res)
  case Rejected
  then show ?thesis using consistent_finally_query[OF assms]
    by (simp add: querySettled_def)
next
  case (Resolved raw)
  have released: "consistent
      (finally_block user (s\<lparr> awaiting_query := remove1 user (awaiting_query s) \<rparr>))"
    by (rule consistent_finally_query[OF assms])
  have cached: "consistent
      (finally_block user (s\<lparr> awaiting_query := remove1 user (awaiting_query s),
         userHealthCache := (userHealthCache s)(user \<mapsto> hf) \<rparr>))" for hf
    using released by (simp add: consistent_def suspended_def finally_block_def)
  have handed: "consistent
      (s\<lparr> awaiting_query := remove1 user (awaiting_query s),
         userHealthCache := (userHealthCache s)(user \<mapsto> hf),
         awaiting_handler := awaiting_handler s @ [user] \<rparr>)" for hf
    using assms
    by (auto simp: consistent_def suspended_def int_length_remove1)
  show ?thesis using Resolved released cached handed
    by (simp add: querySettled_def Let_def)
qed

lemma consistent_handlerSettled:
  assumes "consistent s" "user \<in> set (awaiting_handler s)"
  shows "consistent (handlerSettled user s)"
  using assms
  by (auto simp: consistent_def suspended_def handlerSettled_def finally_block_def
      int_length_remove1)

lemma consistent_fire:
  assumes "consistent s" "fire cfg te s = Some (out, s')"
  shows "consistent s'"
proof (cases "snd te")
  case (UserEvent user)
  then show ?thesis using assms consistent_checkUserHealth
    by (auto simp: fire_def onUserEvent_def)
next
  case (PendingTx input decoded)
  then show ?thesis using assms consistent_checkUserHealth
    by (auto simp: fire_def onPendingTx_def split: if_splits option.splits)
next
  case (ScanVisit user)
  then show ?thesis using assms consistent_checkUserHealth
    by (auto simp: fire_def fullScanVisit_def split: if_splits)
next
  case (QuerySettled user res)
  then show ?thesis using assms consistent_querySettled[of s user cfg res]
    by (auto simp: fire_def split: if_splits)
next
  case (HandlerSettled user)
  then show ?thesis using assms consistent_handlerSettled
    by (auto simp: fire_def split: if_splits)
qed

lemma consistent_run:
  "consistent s \<Longrightarrow> run cfg tes s = Some (out, s') \<Longrightarrow> consistent s'"
proof (induction tes arbitrary: s out)
  case Nil
  then show ?case by simp
next
  case (Cons te tes)
  then show ?case
    by (auto split: option.splits prod.splits dest: consistent_fire)
qed

lemma cap_checkUserHealth:
  "activeChecks s \<le> MAX_CONCURRENT_CHECKS cfg \<Longrightarrow>
   activeChecks (checkUserHealth cfg now user s) \<le> MAX_CONCURRENT_CHECKS cfg"
  by (simp add: checkUserHealth_def)

lemma cap_querySettled:
  "activeChecks s \<le> MAX_CONCURRENT_CHECKS cfg \<Longrightarrow>
   activeChecks (snd (querySettled cfg user res s)) \<le> MAX_CONCURRENT_CHECKS cfg"
  by (cases res) (simp_all add: querySettled_def finally_block_def Let_def)

lemma cap_fire:
  assumes "activeChecks s \<le> MAX_CONCURRENT_CHECKS cfg" "fire cfg te s = Some (out, s')"
  shows "activeChecks s' \<le> MAX_CONCURRENT_CHECKS cfg"
proof (cases "snd te")
  case (UserEvent user)
  then show ?thesis using assms cap_checkUserHealth
    by (auto simp: fire_def onUserEvent_def)
next
  case (PendingTx input decoded)
  then show ?thesis using assms cap_checkUserHealth
    by (auto simp: fire_def onPendingTx_def split: if_splits option.splits)
next
  case (ScanVisit user)
  then show ?thesis using assms cap_checkUserHealth
    by (auto simp: fire_def fullScanVisit_def split: if_splits)
next
  case (QuerySettled user res)
  then show ?thesis using assms cap_querySettled[of s cfg user res]
    by (auto simp: fire_def split: if_splits)
next
  case (HandlerSettled user)
  then show ?thesis using assms
    by (auto simp: fire_def handlerSettled_def finally_block_def split: if_splits)
qed

lemma cap_run:
  "activeChecks s \<le> MAX_CONCURRENT_CHECKS cfg \<Longrightarrow> run cfg tes s = Some (out, s')
   \<Longrightarrow> activeChecks s' \<le> MAX_CONCURRENT_CHECKS cfg"
proof (induction tes arbitrary: s out)
  case Nil
  then show ?case by simp
next
  case (Cons te tes)
  then show ?case
    by (auto split: option.splits prod.splits dest: cap_fire)
qed

lemma notification_at_cap:
  assumes "MAX_CONCURRENT_CHECKS cfg \<le> activeChecks s" "is_notification (snd te)"
    "fire cfg te s = Some (out, s')"
  shows "s' = s"
  using assms
  by (cases "snd te")
     (auto simp: fire_def onUserEvent_def onPendingTx_def fullScanVisit_def
        checkUserHealth_def split: if_splits option.splits)

text \<open>
  Claim C2. With a cap that is not negative, in every state the scheduler reaches from
  its initial state the counter \<open>activeChecks\<close>, and with it the number of health
  queries in flight, is at most \<open>MAX_CONCURRENT_CHECKS\<close>. A call of \<open>checkUserHealth\<close>
  that arrives with the counter at the cap, through any of the notification paths,
  leaves the state as it is and issues no query; and a call that changes the state
  found the counter below the cap, adds one to it and issues one query.
\<close>

theorem in_flight_never_exceeds_cap:
  assumes "0 \<le> MAX_CONCURRENT_CHECKS cfg" and "run cfg tes initial = Some (out, s)"
  shows "activeChecks s \<le> MAX_CONCURRENT_CHECKS cfg
    \<and> int (length (awaiting_query s)) \<le> MAX_CONCURRENT_CHECKS cfg
    \<and> (activeChecks s = MAX_CONCURRENT_CHECKS cfg \<longrightarrow>
         checkUserHealth cfg now user s = s
         \<and> (\<forall>te out' s'. is_notification (snd te) \<and> fire cfg te s = Some (out', s')
               \<longrightarrow> s' = s))
    \<and> (checkUserHealth cfg now user s \<noteq> s \<longrightarrow>
         activeChecks s < MAX_CONCURRENT_CHECKS cfg
         \<and> activeChecks (checkUserHealth cfg now user s) = activeChecks s + 1
         \<and> awaiting_query (checkUserHealth cfg now user s) = awaiting_query s @ [user])"
proof -
  have "activeChecks initial \<le> MAX_CONCURRENT_CHECKS cfg"
    using assms(1) by (simp add: initial_def)
  then have cap: "activeChecks s \<le> MAX_CONCURRENT_CHECKS cfg"
    using assms(2) by (rule cap_run)
  have "consistent s"
    using consistent_initial assms(2) by (rule consistent_run)
  then have "int (length (awaiting_query s)) \<le> activeChecks s"
    by (simp add: consistent_def suspended_def)
  with cap have queries: "int (length (awaiting_query s)) \<le> MAX_CONCURRENT_CHECKS cfg"
    by simp
  have full: "activeChecks s = MAX_CONCURRENT_CHECKS cfg \<longrightarrow>
         checkUserHealth cfg now user s = s
         \<and> (\<forall>te out' s'. is_notification (snd te) \<and> fire cfg te s = Some (out', s')
               \<longrightarrow> s' = s)"
    using notification_at_cap[of cfg s] by (auto simp: checkUserHealth_def)
  have admitted: "checkUserHealth cfg now user s \<noteq> s \<longrightarrow>
         activeChecks s < MAX_CONCURRENT_CHECKS cfg
         \<and> activeChecks (checkUserHealth cfg now user s) = activeChecks s + 1
         \<and> awaiting_query (checkUserHealth cfg now user s) = awaiting_query s @ [user]"
    by (simp add: checkUserHealth_def)
  from cap queries full admitted show ?thesis by blast
qed

text \<open>
  An instance with cap 1: the first notification is admitted from the initial state,
  the second one finds the counter at the cap and is dropped.
\<close>

lemma run_one_admitted:
  "run single_slot_config [(100, UserEvent ''0xab'')] initial =
     Some ([], \<lparr> activeChecks = 1, activeUsers = {''0xab''},
       lastCheck = [''0xab'' \<mapsto> 100], userHealthCache = Map.empty,
       awaiting_query = [''0xab''], awaiting_handler = [] \<rparr>)"
  by (simp add: fire_def onUserEvent_def checkUserHealth_def shouldSkipUser_def initial_def
      single_slot_config_def default_config_def toLowerCase_def lower_char_def)

theorem in_flight_never_exceeds_cap_witness:
  "activeChecks (checkUserHealth single_slot_config 100 ''0xab'' initial) = 1
   \<and> awaiting_query (checkUserHealth single_slot_config 100 ''0xab'' initial) = [''0xab'']
   \<and> checkUserHealth single_slot_config 101 ''0xcd''
        (checkUserHealth single_slot_config 100 ''0xab'' initial)
      = checkUserHealth single_slot_config 100 ''0xab'' initial"
proof -
  let ?s = "\<lparr> activeChecks = 1, activeUsers = {''0xab''},
       lastCheck = [''0xab'' \<mapsto> 100], userHealthCache = Map.empty,
       awaiting_query = [''0xab''], awaiting_handler = [] \<rparr>"
  have cap: "0 \<le> MAX_CONCURRENT_CHECKS single_slot_config"
    by (simp add: single_slot_config_def default_config_def)
  have s: "checkUserHealth single_slot_config 100 ''0xab'' initial = ?s"
    by (simp add: checkUserHealth_def shouldSkipUser_def initial_def
      single_slot_config_def default_config_def)
  have start: "run single_slot_config [] initial = Some ([], initial)"
    by simp
  have changed: "checkUserHealth single_slot_config 100 ''0xab'' initial \<noteq> initial"
    unfolding s by (simp add: initial_def)
  have full: "activeChecks ?s = MAX_CONCURRENT_CHECKS single_slot_config"
    by (simp add: single_slot_config_def default_config_def)
  from in_flight_never_exceeds_cap[OF cap start, of 100 "''0xab''"] changed
  have first: "activeChecks (checkUserHealth single_slot_config 100 ''0xab'' initial) = 1
    \<and> awaiting_query (checkUserHealth single_slot_config 100 ''0xab'' initial) = [''0xab'']"
    by (simp add: initial_def)
  from in_flight_never_exceeds_cap[OF cap run_one_admitted, of 101 "''0xcd''"] full s
  have second: "checkUserHealth single_slot_config 101 ''0xcd''
        (checkUserHealth single_slot_config 100 ''0xab'' initial)
      = checkUserHealth single_slot_config 100 ''0xab'' initial"
    by simp
  from first second show ?thesis by simp
qed

text \<open>
  Claim C10. In every state the scheduler reaches from its initial state, the set
  \<open>activeUsers\<close> is finite and the counter \<open>activeChecks\<close> is the number of its
  elements, which are the addresses of the suspended calls; so a cap that is not
  negative bounds the size of the set as well.
\<close>

theorem counter_is_size_of_active_set:
  assumes "run cfg tes initial = Some (out, s)"
  shows "finite (activeUsers s)
    \<and> activeChecks s = int (card (activeUsers s))
    \<and> activeUsers s = set (suspended s)
    \<and> (0 \<le> MAX_CONCURRENT_CHECKS cfg \<longrightarrow>
          int (card (activeUsers s)) \<le> MAX_CONCURRENT_CHECKS cfg)"
proof -
  have inv: "consistent s"
    using consistent_initial assms by (rule consistent_run)
  then have users: "activeUsers s = set (suspended s)"
    and count: "activeChecks s = int (length (suspended s))"
    and dist: "distinct (suspended s)"
    by (simp_all add: consistent_def)
  from users have fin: "finite (activeUsers s)" by simp
  from users dist have "card (activeUsers s) = length (suspended s)"
    by (simp add: distinct_card)
  with count have eq: "activeChecks s = int (card (activeUsers s))" by simp
  have bound: "0 \<le> MAX_CONCURRENT_CHECKS cfg \<longrightarrow>
          int (card (activeUsers s)) \<le> MAX_CONCURRENT_CHECKS cfg"
  proof
    assume "0 \<le> MAX_CONCURRENT_CHECKS cfg"
    then have "activeChecks initial \<le> MAX_CONCURRENT_CHECKS cfg"
      by (simp add: initial_def)
    then have "activeChecks s \<le> MAX_CONCURRENT_CHECKS cfg"
      using assms by (rule cap_run)
    with eq show "int (card (activeUsers s)) \<le> MAX_CONCURRENT_CHECKS cfg" by simp
  qed
  from fin eq users bound show ?thesis by simp
qed

theorem counter_is_size_of_active_set_witness:
  "activeChecks \<lparr> activeChecks = 1, activeUsers = {''0xab''},
       lastCheck = [''0xab'' \<mapsto> 100], userHealthCache = Map.empty,
       awaiting_query = [''0xab''], awaiting_handler = [] \<rparr>
     = int (card {''0xab''})
   \<and> int (card {''0xab''}) \<le> MAX_CONCURRENT_CHECKS single_slot_config"
proof -
  have cap: "0 \<le> MAX_CONCURRENT_CHECKS single_slot_config"
    by (simp add: single_slot_config_def default_config_def)
  from counter_is_size_of_active_set[OF run_one_admitted] cap
  show ?thesis by simp
qed

text \<open>
  Claim C4. In every state the scheduler reaches from its initial state no address has
  two suspended calls of \<open>checkUserHealth\<close>, and \<open>activeUsers\<close> holds exactly the
  addresses of the suspended calls: the flag of an address is set from the admission
  of its call until the call runs its \<open>finally\<close> block. A notification for an address
  whose flag is set leaves the state as it is. An admitted call sets the flag and
  issues the query; when the query is rejected the flag is cleared; when it
  resolves the flag is cleared unless the call is suspended once more at
  \<open>await handleLiquidation\<close>, and it is cleared when that call resumes.
\<close>

theorem one_query_per_address:
  assumes "run cfg tes initial = Some (out, s)"
  shows "distinct (suspended s)
    \<and> activeUsers s = set (suspended s)
    \<and> (user \<in> activeUsers s \<longrightarrow> checkUserHealth cfg now user s = s)
    \<and> (checkUserHealth cfg now user s \<noteq> s \<longrightarrow>
         user \<notin> activeUsers s
         \<and> user \<in> activeUsers (checkUserHealth cfg now user s)
         \<and> suspended (checkUserHealth cfg now user s) = awaiting_query s @ [user] @ awaiting_handler s)
    \<and> (user \<in> set (awaiting_query s) \<longrightarrow>
         user \<notin> activeUsers (snd (querySettled cfg user Rejected s))
         \<and> user \<notin> set (suspended (snd (querySettled cfg user Rejected s)))
         \<and> (user \<in> activeUsers (snd (querySettled cfg user (Resolved raw) s))
              \<longleftrightarrow> user \<in> set (awaiting_handler (snd (querySettled cfg user (Resolved raw) s)))))
    \<and> (user \<in> set (awaiting_handler s) \<longrightarrow>
         user \<notin> activeUsers (handlerSettled user s)
         \<and> user \<notin> set (suspended (handlerSettled user s)))"
proof -
  have inv: "consistent s"
    using consistent_initial assms by (rule consistent_run)
  then have dist: "distinct (suspended s)" and users: "activeUsers s = set (suspended s)"
    by (simp_all add: consistent_def)
  have dropped: "user \<in> activeUsers s \<longrightarrow> checkUserHealth cfg now user s = s"
    by (simp add: checkUserHealth_def)
  have admitted: "checkUserHealth cfg now user s \<noteq> s \<longrightarrow>
         user \<notin> activeUsers s
         \<and> user \<in> activeUsers (checkUserHealth cfg now user s)
         \<and> suspended (checkUserHealth cfg now user s) = awaiting_query s @ [user] @ awaiting_handler s"
    by (simp add: checkUserHealth_def suspended_def)
  have query: "user \<notin> activeUsers (snd (querySettled cfg user Rejected s))
         \<and> user \<notin> set (suspended (snd (querySettled cfg user Rejected s)))
         \<and> (user \<in> activeUsers (snd (querySettled cfg user (Resolved raw) s))
              \<longleftrightarrow> user \<in> set (awaiting_handler (snd (querySettled cfg user (Resolved raw) s))))"
    if mem: "user \<in> set (awaiting_query s)"
  proof -
    have c: "consistent (snd (querySettled cfg user res s))" for res
      using inv mem by (rule consistent_querySettled)
    have notq: "user \<notin> set (awaiting_query (snd (querySettled cfg user res s)))" for res
      using dist by (cases res) (auto simp: querySettled_def suspended_def finally_block_def Let_def)
    have rej: "user \<notin> activeUsers (snd (querySettled cfg user Rejected s))"
      by (simp add: querySettled_def finally_block_def)
    from c[of Rejected] rej
    have rej2: "user \<notin> set (suspended (snd (querySettled cfg user Rejected s)))"
      by (simp add: consistent_def)
    from c[of "Resolved raw"] notq[of "Resolved raw"]
    have res: "user \<in> activeUsers (snd (querySettled cfg user (Resolved raw) s))
              \<longleftrightarrow> user \<in> set (awaiting_handler (snd (querySettled cfg user (Resolved raw) s)))"
      by (simp add: consistent_def suspended_def)
    from rej rej2 res show ?thesis by simp
  qed
  have handler: "user \<notin> activeUsers (handlerSettled user s)
         \<and> user \<notin> set (suspended (handlerSettled user s))"
    if mem: "user \<in> set (awaiting_handler s)"
  proof -
    have c: "consistent (handlerSettled user s)"
      using inv mem by (rule consistent_handlerSettled)
    have "user \<notin> activeUsers (handlerSettled user s)"
      by (simp add: handlerSettled_def finally_block_def)
    with c show ?thesis by (simp add: consistent_def)
  qed
  from dist users dropped admitted query handler show ?thesis by blast
qed

theorem one_query_per_address_witness:
  "checkUserHealth single_slot_config 200 ''0xab''
       \<lparr> activeChecks = 1, activeUsers = {''0xab''},
         lastCheck = [''0xab'' \<mapsto> 100], userHealthCache = Map.empty,
         awaiting_query = [''0xab''], awaiting_handler = [] \<rparr>
     = \<lparr> activeChecks = 1, activeUsers = {''0xab''},
         lastCheck = [''0xab'' \<mapsto> 100], userHealthCache = Map.empty,
         awaiting_query = [''0xab''], awaiting_handler = [] \<rparr>
   \<and> ''0xab'' \<notin> activeUsers (snd (querySettled single_slot_config ''0xab'' Rejected
         \<lparr> activeChecks = 1, activeUsers = {''0xab''},
           lastCheck = [''0xab'' \<mapsto> 100], userHealthCache = Map.empty,
           awaiting_query = [''0xab''], awaiting_handler = [] \<rparr>))
   \<and> ''0xab'' \<in> activeUsers (checkUserHealth single_slot_config 100 ''0xab'' initial)"
proof -
  have start: "run single_slot_config [] initial = Some ([], initial)"
    by simp
  have changed: "checkUserHealth single_slot_config 100 ''0xab'' initial \<noteq> initial"
  proof
    assume "checkUserHealth single_slot_config 100 ''0xab'' initial = initial"
    then have "activeChecks (checkUserHealth single_slot_config 100 ''0xab'' initial)
      = activeChecks initial" by simp
    then show False
      by (simp add: checkUserHealth_def shouldSkipUser_def initial_def
        single_slot_config_def default_config_def)
  qed
  from one_query_per_address[OF start, where now = 100 and user = "''0xab''"] changed
  have first: "''0xab'' \<in> activeUsers (checkUserHealth single_slot_config 100 ''0xab'' initial)"
    by simp
  from one_query_per_address[OF run_one_admitted, where now = 200 and user = "''0xab''"]
  show ?thesis using first by simp
qed

lemma checked_since_checkUserHealth:
  assumes "0 \<le> USER_DEBOUNCE_SECONDS cfg" "0 < t" "checked_since t A s"
  shows "checked_since t A (checkUserHealth cfg now user s)"
  using assms
  by (auto simp: checked_since_def checkUserHealth_def shouldSkipUser_def split: if_splits)

lemma lastCheck_querySettled:
  "lastCheck (snd (querySettled cfg user res s)) = lastCheck s"
  by (cases res) (simp_all add: querySettled_def finally_block_def Let_def)

lemma checked_since_fire:
  assumes "0 \<le> USER_DEBOUNCE_SECONDS cfg" "0 < t" "checked_since t A s"
    "fire cfg te s = Some (out, s')"
  shows "checked_since t A s'"
proof (cases "snd te")
  case (UserEvent user)
  then show ?thesis using assms checked_since_checkUserHealth
    by (auto simp: fire_def onUserEvent_def)
next
  case (PendingTx input decoded)
  then show ?thesis using assms checked_since_checkUserHealth
    by (auto simp: fire_def onPendingTx_def split: if_splits option.splits)
next
  case (ScanVisit user)
  then show ?thesis using assms checked_since_checkUserHealth
    by (auto simp: fire_def fullScanVisit_def split: if_splits)
next
  case (QuerySettled user res)
  then have "lastCheck s' = lastCheck s"
    using assms(4) lastCheck_querySettled[of cfg user res s]
    by (auto simp: fire_def split: if_splits)
  then show ?thesis using assms(3) by (simp add: checked_since_def)
next
  case (HandlerSettled user)
  then have "lastCheck s' = lastCheck s"
    using assms(4)
    by (auto simp: fire_def handlerSettled_def finally_block_def split: if_splits)
  then show ?thesis using assms(3) by (simp add: checked_since_def)
qed

lemma checked_since_run:
  "0 \<le> USER_DEBOUNCE_SECONDS cfg \<Longrightarrow> 0 < t \<Longrightarrow> checked_since t A s
   \<Longrightarrow> run cfg tes s = Some (out, s') \<Longrightarrow> checked_since t A s'"
proof (induction tes arbitrary: s out)
  case Nil
  then show ?case by simp
next
  case (Cons te tes)
  then show ?case
    by (auto split: option.splits prod.splits dest: checked_since_fire)
qed

text \<open>
  Claim C3. Let a call of \<open>checkUserHealth\<close> for an address be admitted at a clock
  reading \<open>t1\<close> after the epoch, with a debounce window that is not negative. The call
  records \<open>t1\<close> as the time of the last check, and after any further events a call for
  the same address at a reading less than the window after \<open>t1\<close> leaves the state as
  it is: it issues no second query.
\<close>

theorem debounce_window:
  assumes "0 \<le> USER_DEBOUNCE_SECONDS cfg" and "0 < t1"
    and "checkUserHealth cfg t1 A s0 \<noteq> s0"
    and "run cfg tes (checkUserHealth cfg t1 A s0) = Some (out, s2)"
    and "t2 - t1 < USER_DEBOUNCE_SECONDS cfg"
  shows "lastCheck (checkUserHealth cfg t1 A s0) A = Some t1
    \<and> checkUserHealth cfg t2 A s2 = s2"
proof -
  from assms(3) have rec: "lastCheck (checkUserHealth cfg t1 A s0) A = Some t1"
    by (auto simp: checkUserHealth_def split: if_splits)
  then have "checked_since t1 A (checkUserHealth cfg t1 A s0)"
    by (simp add: checked_since_def)
  then have "checked_since t1 A s2"
    using assms(1,2,4) checked_since_run by blast
  then obtain l where l: "lastCheck s2 A = Some l" "t1 \<le> l"
    by (auto simp: checked_since_def)
  with assms(2,5) have "shouldSkipUser cfg t2 A s2"
    by (simp add: shouldSkipUser_def)
  then have "checkUserHealth cfg t2 A s2 = s2"
    by (simp add: checkUserHealth_def)
  with rec show ?thesis by simp
qed

text \<open>
  The scenario of the specification: a first result at second 100, the query settles,
  and a duplicate event ten seconds later, inside the window of thirty seconds.
\<close>

theorem debounce_window_witness:
  "lastCheck (checkUserHealth default_config 100 ''0xab'' initial) ''0xab'' = Some 100
   \<and> checkUserHealth default_config 110 ''0xab''
       \<lparr> activeChecks = 0, activeUsers = {},
         lastCheck = [''0xab'' \<mapsto> 100], userHealthCache = [''0xab'' \<mapsto> Fin (98 / 100)],
         awaiting_query = [], awaiting_handler = [] \<rparr>
     = \<lparr> activeChecks = 0, activeUsers = {},
         lastCheck = [''0xab'' \<mapsto> 100], userHealthCache = [''0xab'' \<mapsto> Fin (98 / 100)],
         awaiting_query = [], awaiting_handler = [] \<rparr>"
proof -
  let ?s1 = "\<lparr> activeChecks = 1, activeUsers = {''0xab''},
       lastCheck = [''0xab'' \<mapsto> 100], userHealthCache = Map.empty,
       awaiting_query = [''0xab''], awaiting_handler = [] \<rparr>"
  have s1: "checkUserHealth default_config 100 ''0xab'' initial = ?s1"
    by (simp add: checkUserHealth_def shouldSkipUser_def initial_def default_config_def)
  have window: "0 \<le> USER_DEBOUNCE_SECONDS default_config"
    by (simp add: default_config_def)
  have changed: "checkUserHealth default_config 100 ''0xab'' initial \<noteq> initial"
    unfolding s1 by (simp add: initial_def)
  have later: "run default_config
      [(101, QuerySettled ''0xab'' (Resolved (Some (98 / 100)))), (101, HandlerSettled ''0xab'')]
      (checkUserHealth default_config 100 ''0xab'' initial)
    = Some ([LogFlashloan ''0xab'' (Fin (98 / 100))],
       \<lparr> activeChecks = 0, activeUsers = {},
         lastCheck = [''0xab'' \<mapsto> 100], userHealthCache = [''0xab'' \<mapsto> Fin (98 / 100)],
         awaiting_query = [], awaiting_handler = [] \<rparr>)"
    unfolding s1
    by (simp add: fire_def querySettled_def handlerSettled_def finally_block_def
        parseHealthFactor_def handleLiquidation_def default_config_def Let_def)
  have near: "(110::int) - 100 < USER_DEBOUNCE_SECONDS default_config"
    by (simp add: default_config_def)
  have pos: "(0::int) < 100" by simp
  from debounce_window[OF window pos changed later near] show ?thesis .
qed

text \<open>
  Claim C1, as amended. When a health query resolves, the liquidation handler runs if
  and only if the parsed metric is at most the threshold and differs from the metric
  recorded for the address (\<open>Infinity\<close> when none is recorded). The handler calls
  \<open>sendAlert\<close>, once, only in test mode; outside test mode it logs the flashloan
  trigger and emits no alert.
\<close>

theorem alert_iff_in_test_mode:
  "alerts (fst (querySettled cfg user (Resolved raw) s)) =
     (if TEST_MODE cfg \<and> num_le (parseHealthFactor raw) (HF_THRESHOLD cfg)
         \<and> parseHealthFactor raw \<noteq> previous_metric s user
      then [SendAlert user (parseHealthFactor raw) (HF_THRESHOLD cfg)] else [])
   \<and> fst (querySettled cfg user (Resolved raw) s) =
     (if num_le (parseHealthFactor raw) (HF_THRESHOLD cfg)
         \<and> parseHealthFactor raw \<noteq> previous_metric s user
      then handleLiquidation cfg user (parseHealthFactor raw) else [])"
  by (simp add: querySettled_def previous_metric_def handleLiquidation_def alerts_def Let_def)

theorem alert_iff_in_test_mode_witness:
  "alerts (fst (querySettled test_mode_config ''0xab'' (Resolved (Some (98 / 100)))
       (checkUserHealth test_mode_config 100 ''0xab'' initial)))
   = [SendAlert ''0xab'' (Fin (98 / 100)) (Fin (105 / 100))]"
proof -
  have cond: "TEST_MODE test_mode_config
      \<and> num_le (parseHealthFactor (Some (98 / 100))) (HF_THRESHOLD test_mode_config)
      \<and> parseHealthFactor (Some (98 / 100))
          \<noteq> previous_metric (checkUserHealth test_mode_config 100 ''0xab'' initial) ''0xab''"
    by (simp add: previous_metric_def checkUserHealth_def initial_def parseHealthFactor_def
        test_mode_config_def default_config_def)
  have sent: "[SendAlert ''0xab'' (parseHealthFactor (Some (98 / 100)))
        (HF_THRESHOLD test_mode_config)]
      = [SendAlert ''0xab'' (Fin (98 / 100)) (Fin (105 / 100))]"
    by (simp add: parseHealthFactor_def test_mode_config_def default_config_def)
  from alert_iff_in_test_mode[of test_mode_config "''0xab''" "Some (98 / 100)"
      "checkUserHealth test_mode_config 100 ''0xab'' initial", THEN conjunct1]
  show ?thesis by (simp only: cond if_True simp_thms sent)
qed

text \<open>
  With the default configuration (test mode off) a first result of 0.98 under the
  threshold 1.05 differs from the recorded metric, and no alert is emitted.
\<close>

theorem alert_iff_counterexample:
  "\<not> (alerts (fst (querySettled default_config ''0xab'' (Resolved (Some (98 / 100)))
             (checkUserHealth default_config 100 ''0xab'' initial))) \<noteq> []
       \<longleftrightarrow> num_le (parseHealthFactor (Some (98 / 100))) (HF_THRESHOLD default_config)
           \<and> parseHealthFactor (Some (98 / 100))
               \<noteq> previous_metric (checkUserHealth default_config 100 ''0xab'' initial) ''0xab'')"
  by (simp add: querySettled_def previous_metric_def handleLiquidation_def alerts_def Let_def
      parseHealthFactor_def checkUserHealth_def shouldSkipUser_def initial_def
      default_config_def)














section \<open>Properties of the connection pool\<close>

lemma find_other:
  assumes "i < n"
  shows "find (\<lambda>p. p \<noteq> i) [0..<n] = (if n = 1 then None else Some (if i = 0 then 1 else 0))"
proof (cases "n = 1")
  case True
  with assms show ?thesis by simp
next
  case False
  with assms have "1 < n" by simp
  then have "[0..<n] = 0 # 1 # [2..<n]"
    by (simp add: upt_conv_Cons numeral_2_eq_2)
  then show ?thesis using False by simp
qed

lemma activeProvider_on_close:
  "i < n \<Longrightarrow> activeProvider (on_close n i s)
     = (if n = 1 then None else Some (if i = 0 then 1 else 0))"
  by (simp add: on_close_def find_other)

lemma routed_startup: "routed n (startup n) (\<lambda>i. Connecting)"
  by (simp add: routed_def startup_def)

lemma routed_deliver:
  assumes "routed n s st" "deliver n ev s = Some s'"
  shows "routed n s' (track ev st)"
proof (cases ev)
  case (Open i)
  with assms show ?thesis
    by (auto simp: routed_def deliver_def on_open_def split: if_splits)
next
  case (Close i)
  with assms have "i < n" and s': "s' = on_close n i s"
    by (auto simp: deliver_def split: if_splits)
  then have "activeProvider s' = (if n = 1 then None else Some (if i = 0 then 1 else 0))"
    by (simp add: activeProvider_on_close)
  with \<open>i < n\<close> Close show ?thesis
    by (auto simp: routed_def split: if_splits)
next
  case (Error i)
  with assms show ?thesis
    by (auto simp: routed_def deliver_def on_error_def split: if_splits)
qed

lemma routed_deliver_all:
  "routed n s st \<Longrightarrow> deliver_all n evs s = Some s' \<Longrightarrow> routed n s' (fold track evs st)"
proof (induction evs arbitrary: s st)
  case Nil
  then show ?case by simp
next
  case (Cons ev evs)
  then show ?case
    by (auto split: option.splits dest: routed_deliver)
qed

lemma subscriptions_deliver:
  "deliver n ev s = Some s' \<Longrightarrow> subscriptions s' = subscriptions s"
  by (cases ev) (auto simp: deliver_def on_open_def on_close_def on_error_def
      split: if_splits option.splits)

lemma subscriptions_deliver_all:
  "deliver_all n evs s = Some s' \<Longrightarrow> subscriptions s' = subscriptions s"
proof (induction evs arbitrary: s)
  case Nil
  then show ?case by simp
next
  case (Cons ev evs)
  then show ?case
    by (auto split: option.splits dest: subscriptions_deliver)
qed

text \<open>
  Claim C5, as amended. In every state the pool reaches from start-up the active
  reference is empty or names one configured connection; it is not empty whenever
  some connection is Open, and it is empty only in a pool of at most one connection.
  A close signal of any connection sets the reference to the first configured
  connection other than the closing one, whatever the state of that connection, and
  empties it when there is no other; an open signal sets the reference only when it is
  empty; an error signal leaves it as it is.
\<close>

theorem active_reference_after_events:
  assumes "deliver_all n evs (startup n) = Some s"
  shows "(\<forall>j. activeProvider s = Some j \<longrightarrow> j < n)
    \<and> ((\<exists>j<n. spec_lifecycle evs j = IsOpen) \<longrightarrow> activeProvider s \<noteq> None)
    \<and> (activeProvider s = None \<longrightarrow> n \<le> 1)
    \<and> (i < n \<longrightarrow> activeProvider (on_close n i s)
          = (if n = 1 then None else Some (if i = 0 then 1 else 0)))
    \<and> activeProvider (on_open i s)
          = (if activeProvider s = None then Some i else activeProvider s)
    \<and> on_error i s = s"
proof -
  have "routed n s (spec_lifecycle evs)"
    unfolding spec_lifecycle_def using routed_startup assms by (rule routed_deliver_all)
  then have inv: "(\<forall>j. activeProvider s = Some j \<longrightarrow> j < n)
    \<and> ((\<exists>j<n. spec_lifecycle evs j = IsOpen) \<longrightarrow> activeProvider s \<noteq> None)
    \<and> (activeProvider s = None \<longrightarrow> n \<le> 1)"
    by (auto simp: routed_def)
  have closing: "i < n \<longrightarrow> activeProvider (on_close n i s)
          = (if n = 1 then None else Some (if i = 0 then 1 else 0))"
    by (simp add: activeProvider_on_close)
  have on_opening: "activeProvider (on_open i s)
          = (if activeProvider s = None then Some i else activeProvider s)"
    by (simp add: on_open_def)
  have err: "on_error i s = s"
    by (simp add: on_error_def)
  from inv closing on_opening err show ?thesis by blast
qed

theorem active_reference_after_events_witness:
  "spec_lifecycle [Open 0, Close 0] 1 = Connecting
   \<and> activeProvider (on_close 2 0 \<lparr> activeProvider = Some 0,
        subscriptions = subscriptions (startup 2) \<rparr>) = Some 1
   \<and> spec_lifecycle [Open 0] 0 = IsOpen
   \<and> activeProvider \<lparr> activeProvider = Some 0,
        subscriptions = subscriptions (startup 2) \<rparr> \<noteq> None"
proof -
  have run: "deliver_all 2 [Open 0] (startup 2)
      = Some \<lparr> activeProvider = Some 0, subscriptions = subscriptions (startup 2) \<rparr>"
    by (simp add: deliver_def on_open_def startup_def)
  have state: "spec_lifecycle [Open 0, Close 0] 1 = Connecting
      \<and> spec_lifecycle [Open 0] 0 = IsOpen"
    by (simp add: spec_lifecycle_def)
  have "\<exists>j<2. spec_lifecycle [Open 0] j = IsOpen"
    using state by (intro exI[of _ 0]) simp
  with active_reference_after_events[OF run, of 0] state
  show ?thesis by simp
qed

text \<open>
  Two connections open and then both close: all connections are Closed, and the active
  reference still names connection 0; it was promoted by the close of connection 1
  when it was already Closed.
\<close>

theorem active_when_all_closed_counterexample:
  "\<not> (spec_lifecycle [Open 0, Open 1, Close 0, Close 1] 0 = Closed
       \<and> spec_lifecycle [Open 0, Open 1, Close 0, Close 1] 1 = Closed
      \<longrightarrow> map_option activeProvider
            (deliver_all 2 [Open 0, Open 1, Close 0, Close 1] (startup 2)) = Some None)"
  by (simp add: spec_lifecycle_def deliver_def on_open_def on_close_def startup_def
      upt_conv_Cons numeral_2_eq_2)

text \<open>
  Claim C6, as amended. The listeners are registered once, at start-up: every
  configured connection gets the four activity events and the liquidation event, all
  connections at the same time, and the pending and mined transaction streams are
  registered on the separate Alchemy client. No socket event, and so no promotion,
  registers or removes a listener.
\<close>

theorem subscriptions_fixed_at_startup:
  assumes "deliver_all n evs (startup n) = Some s"
  shows "subscriptions s = subscriptions (startup n)
    \<and> ((Provider i, t) \<in> set (subscriptions s) \<longleftrightarrow> i < n \<and> t \<in> set provider_topics)
    \<and> ((AlchemyWs, t) \<in> set (subscriptions s)
          \<longleftrightarrow> t = PENDING_TRANSACTIONS \<or> t = MINED_TRANSACTIONS)"
proof -
  have same: "subscriptions s = subscriptions (startup n)"
    using assms by (rule subscriptions_deliver_all)
  have prov: "(Provider i, t) \<in> set (subscriptions (startup n))
      \<longleftrightarrow> i < n \<and> t \<in> set provider_topics"
    by (auto simp: startup_def provider_topics_def)
  have alch: "(AlchemyWs, t) \<in> set (subscriptions (startup n))
      \<longleftrightarrow> t = PENDING_TRANSACTIONS \<or> t = MINED_TRANSACTIONS"
    by (auto simp: startup_def)
  from same prov alch show ?thesis by simp
qed

theorem subscriptions_fixed_at_startup_witness:
  "(Provider 0, Borrow) \<in> set (subscriptions \<lparr> activeProvider = Some 1,
        subscriptions = subscriptions (startup 2) \<rparr>)"
proof -
  have run: "deliver_all 2 [Open 0, Open 1, Close 0] (startup 2)
      = Some \<lparr> activeProvider = Some 1, subscriptions = subscriptions (startup 2) \<rparr>"
    by (simp add: deliver_def on_open_def on_close_def startup_def
        upt_conv_Cons numeral_2_eq_2)
  from subscriptions_fixed_at_startup[OF run, of 0 Borrow]
  show ?thesis by (simp add: provider_topics_def)
qed

text \<open>
  After the close of connection 0 has promoted connection 1, the listeners are those of
  start-up: nothing was registered again, connection 0 still has its listeners, and
  the pending-transaction stream is not on the promoted connection.
\<close>

theorem resubscription_counterexample:
  "map_option activeProvider (deliver_all 2 [Open 0, Open 1, Close 0] (startup 2))
     = Some (Some 1)
   \<and> map_option subscriptions (deliver_all 2 [Open 0, Open 1, Close 0] (startup 2))
     = Some (subscriptions (startup 2))
   \<and> (Provider 0, Borrow) \<in> set (subscriptions (startup 2))
   \<and> (Provider 1, PENDING_TRANSACTIONS) \<notin> set (subscriptions (startup 2))"
  by (simp add: deliver_def on_open_def on_close_def startup_def provider_topics_def
      upt_conv_Cons numeral_2_eq_2)

section \<open>Properties of the alert dispatcher\<close>

lemma attempted_append: "attempted (tr @ tr') = attempted tr @ attempted tr'"
  by (induction tr rule: attempted.induct) simp_all

lemma attempted_stamp_processQueue:
  "attempted (map (\<lambda>a. (t, a)) (fst (processQueue s))) @ ALERT_QUEUE (snd (processQueue s))
     = ALERT_QUEUE s"
  by (simp add: processQueue_def)

lemma bot_processQueue: "bot (snd (processQueue s)) = bot s"
  by (simp add: processQueue_def)

lemma dispatch_accounts:
  assumes "dispatch te s = Some (out, s')"
  shows "bot s' = bot s
    \<and> attempted out @ ALERT_QUEUE s' = ALERT_QUEUE s @ (if bot s then enqueued [te] else [])"
proof (cases te)
  case (Pair t e)
  show ?thesis
  proof (cases e)
    case (Alert time message)
    show ?thesis
    proof (cases "bot s")
      case True
      with assms Pair Alert
      have out: "out = map (\<lambda>a. (t, a))
            (fst (processQueue (s\<lparr> ALERT_QUEUE := ALERT_QUEUE s @ [payload time message] \<rparr>)))"
        and s': "s' = snd (processQueue
            (s\<lparr> ALERT_QUEUE := ALERT_QUEUE s @ [payload time message] \<rparr>))"
        by (auto simp: dispatch_def sendAlert_def)
      from True show ?thesis
        unfolding out s' attempted_stamp_processQueue bot_processQueue
        by (simp add: Pair Alert)
    next
      case False
      with assms Pair Alert show ?thesis
        by (auto simp: dispatch_def sendAlert_def)
    qed
  next
    case (Settled ok)
    with assms Pair show ?thesis
      by (auto simp: dispatch_def settled_def split: if_splits)
  next
    case Timeout
    with assms Pair obtain due rest where
      out: "out = map (\<lambda>a. (t, a)) (fst (processQueue (s\<lparr> timers := rest \<rparr>)))"
      and s': "s' = snd (processQueue (s\<lparr> timers := rest \<rparr>))"
      by (auto simp: dispatch_def split: list.splits if_splits)
    show ?thesis
      unfolding out s' attempted_stamp_processQueue bot_processQueue
      by (simp add: Pair Timeout)
  qed
qed

lemma enqueued_Cons: "enqueued (te # tes) = enqueued [te] @ enqueued tes"
proof (cases te)
  case (Pair t e)
  then show ?thesis by (cases e) simp_all
qed

lemma dispatch_all_accounts:
  "dispatch_all tes s = Some (tr, s') \<Longrightarrow>
     bot s' = bot s
     \<and> attempted tr @ ALERT_QUEUE s' = ALERT_QUEUE s @ (if bot s then enqueued tes else [])"
proof (induction tes arbitrary: s tr)
  case Nil
  then show ?case by simp
next
  case (Cons te tes)
  then obtain out s1 out' where
    one: "dispatch te s = Some (out, s1)"
    and rest: "dispatch_all tes s1 = Some (out', s')"
    and tr: "tr = out @ out'"
    by (auto split: option.splits prod.splits)
  from dispatch_accounts[OF one] Cons.IH[OF rest]
  show ?case
    unfolding tr attempted_append
    by (simp add: enqueued_Cons[of te tes])
qed

text \<open>One delivery at a time: \<open>sending\<close> is true exactly while a promise is unsettled.\<close>

lemma single_flight_dispatch:
  assumes "unsettled s = (if sending s then 1 else 0)" "dispatch te s = Some (out, s')"
  shows "unsettled s' = (if sending s' then 1 else 0)"
  using assms
  by (cases "snd te")
     (auto simp: dispatch_def sendAlert_def processQueue_def settled_def
        split: if_splits list.splits)

lemma single_flight:
  "unsettled s = (if sending s then 1 else 0) \<Longrightarrow> dispatch_all tes s = Some (tr, s')
   \<Longrightarrow> unsettled s' = (if sending s' then 1 else 0)"
proof (induction tes arbitrary: s tr)
  case Nil
  then show ?case by simp
next
  case (Cons te tes)
  then obtain out s1 out' where
    one: "dispatch te s = Some (out, s1)"
    and rest: "dispatch_all tes s1 = Some (out', s')"
    by (auto split: option.splits prod.splits)
  from single_flight_dispatch[OF Cons.prems(1) one] rest show ?case
    by (rule Cons.IH)
qed

text \<open>
  Claim C8. A delivery that fails logs the error and otherwise leaves the dispatcher
  as a successful one does: the failed message, taken off the queue when the delivery
  started, is not put back, \<open>sending\<close> is cleared, and with a queue that is not empty
  the timer for the next round is set, whose \<open>processQueue\<close> hands the head of the
  remaining queue to \<open>sendMessage\<close>. Over any run, the messages handed to
  \<open>sendMessage\<close> followed by the queue are the messages passed to \<open>sendAlert\<close>, in
  order, so no message is attempted twice. Without a bot, \<open>sendAlert\<close> logs the
  message and changes nothing, and over any run the queue stays empty and nothing
  is handed to \<open>sendMessage\<close>.
\<close>

theorem failed_delivery_dropped_and_console_fallback:
  assumes "dispatch_all tes (dispatcher_init configured) = Some (tr, s)"
  shows "attempted tr @ ALERT_QUEUE s = (if configured then enqueued tes else [])
    \<and> (\<not> configured \<longrightarrow> ALERT_QUEUE s = [] \<and> attempted tr = []
          \<and> sendAlert time message s = ([ConsoleLog ''ALERT:'' (payload time message)], s))
    \<and> fst (settled False now s) = [ConsoleError]
    \<and> snd (settled False now s) = snd (settled True now s)
    \<and> ALERT_QUEUE (snd (settled False now s)) = ALERT_QUEUE s
    \<and> \<not> sending (snd (settled False now s))
    \<and> (ALERT_QUEUE s \<noteq> [] \<longrightarrow>
          timers (snd (settled False now s)) = timers s @ [now + TELEGRAM_INTERVAL_MS]
          \<and> (configured \<longrightarrow> fst (processQueue (snd (settled False now s)))
                = [SendMessage (hd (ALERT_QUEUE s))]))"
proof -
  from dispatch_all_accounts[OF assms]
  have bot: "bot s = configured"
    and acc: "attempted tr @ ALERT_QUEUE s = (if configured then enqueued tes else [])"
    by (simp_all add: dispatcher_init_def)
  have fallback: "\<not> configured \<longrightarrow> ALERT_QUEUE s = [] \<and> attempted tr = []
          \<and> sendAlert time message s = ([ConsoleLog ''ALERT:'' (payload time message)], s)"
    using acc bot by (auto simp: sendAlert_def)
  have failure: "fst (settled False now s) = [ConsoleError]
    \<and> snd (settled False now s) = snd (settled True now s)
    \<and> ALERT_QUEUE (snd (settled False now s)) = ALERT_QUEUE s
    \<and> \<not> sending (snd (settled False now s))"
    by (simp add: settled_def)
  have continues: "ALERT_QUEUE s \<noteq> [] \<longrightarrow>
          timers (snd (settled False now s)) = timers s @ [now + TELEGRAM_INTERVAL_MS]
          \<and> (configured \<longrightarrow> fst (processQueue (snd (settled False now s)))
                = [SendMessage (hd (ALERT_QUEUE s))])"
    using bot by (simp add: settled_def processQueue_def)
  from acc fallback failure continues show ?thesis by blast
qed

text \<open>
  Two alerts are enqueued and the delivery of the first one fails: the second one is
  still queued, the first one is not, and the next round delivers the second one.
  Without a bot an alert goes to the console and the queue stays empty.
\<close>

theorem failed_delivery_dropped_and_console_fallback_witness:
  "ALERT_QUEUE (snd (settled False 100
       \<lparr> bot = True, ALERT_QUEUE = [''[t0] m2''], sending = True, unsettled = 1,
         timers = [] \<rparr>)) = [''[t0] m2'']
   \<and> timers (snd (settled False 100
       \<lparr> bot = True, ALERT_QUEUE = [''[t0] m2''], sending = True, unsettled = 1,
         timers = [] \<rparr>)) = [1100]
   \<and> fst (processQueue (snd (settled False 100
       \<lparr> bot = True, ALERT_QUEUE = [''[t0] m2''], sending = True, unsettled = 1,
         timers = [] \<rparr>))) = [SendMessage ''[t0] m2'']
   \<and> sendAlert ''t1'' ''m3'' (dispatcher_init False)
       = ([ConsoleLog ''ALERT:'' ''[t1] m3''], dispatcher_init False)"
proof -
  let ?s = "\<lparr> bot = True, ALERT_QUEUE = [''[t0] m2''], sending = True, unsettled = 1,
         timers = [] \<rparr>"
  have run: "dispatch_all [(0, Alert ''t0'' ''m1''), (0, Alert ''t0'' ''m2'')]
      (dispatcher_init True) = Some ([(0, SendMessage ''[t0] m1'')], ?s)"
    by (simp add: dispatch_def sendAlert_def processQueue_def payload_def dispatcher_init_def)
  have idle: "dispatch_all [] (dispatcher_init False) = Some ([], dispatcher_init False)"
    by simp
  from failed_delivery_dropped_and_console_fallback[OF run, where now = 100]
  have first: "ALERT_QUEUE (snd (settled False 100 ?s)) = [''[t0] m2'']
    \<and> timers (snd (settled False 100 ?s)) = [1100]
    \<and> fst (processQueue (snd (settled False 100 ?s))) = [SendMessage ''[t0] m2'']"
    by (simp add: TELEGRAM_INTERVAL_MS_def payload_def settled_def processQueue_def)
  from failed_delivery_dropped_and_console_fallback[OF idle,
      where time = "''t1''" and message = "''m3''"]
  have second: "sendAlert ''t1'' ''m3'' (dispatcher_init False)
       = ([ConsoleLog ''ALERT:'' ''[t1] m3''], dispatcher_init False)"
    by (simp add: payload_def)
  from first second show ?thesis by simp
qed

text \<open>
  Claim C7 at a failing input. A first alert is delivered at time 0 and its delivery
  settles at 100 ms with the queue empty, so no timer is set; an alert enqueued at
  150 ms is handed to \<open>sendMessage\<close> at once, 50 ms after the previous delivery
  settled and 150 ms after it started. The same happens while a timer is pending:
  with two alerts enqueued at time 0, the second one is delivered at 150 ms by the
  \<open>processQueue\<close> call of a third alert, not at 1100 ms by the timer.
\<close>

theorem spacing_not_kept_after_drain:
  "map_option fst (dispatch_all
       [(0, Alert ''t0'' ''m1''), (100, Settled True), (150, Alert ''t1'' ''m2'')]
       (dispatcher_init True))
     = Some [(0, SendMessage ''[t0] m1''), (150, SendMessage ''[t1] m2'')]
   \<and> map_option fst (dispatch_all
       [(0, Alert ''t0'' ''m1''), (0, Alert ''t0'' ''m2''), (100, Settled True),
        (150, Alert ''t1'' ''m3'')]
       (dispatcher_init True))
     = Some [(0, SendMessage ''[t0] m1''), (150, SendMessage ''[t0] m2'')]
   \<and> 150 - 100 < TELEGRAM_INTERVAL_MS"
  by (simp add: dispatch_def sendAlert_def processQueue_def settled_def payload_def
      dispatcher_init_def TELEGRAM_INTERVAL_MS_def)

end
